theory Spec2Isabelle
  imports Main "HOL-Library.Sublist" "HOL-Library.AList"
begin

section \<open>Python strings and the regular expressions of paper.py\<close>

text \<open>
  A Python \<open>str\<close> is modelled as a \<open>string\<close>, one \<open>char\<close> per code point: the texts of
  the model are those over the code points below 256. Within that range the patterns of
  paper.py read as they are written here: \<open>.\<close> excludes the line feed only, the class
  \<open>[ \t\r\f]\<close> is four characters, and \<open>\d\<close> is the ASCII digits (the decimal digits of
  other scripts, which \<open>\d\<close> matches too, lie above the range).
\<close>

abbreviation bsl :: char where "bsl \<equiv> CHR 0x5C"
abbreviation lf :: char where "lf \<equiv> CHR 0x0A"

definition endswith :: "string \<Rightarrow> string \<Rightarrow> bool" where
  \<comment> \<open>\<open>s.endswith(suf)\<close>\<close>
  "endswith s suf = suffix suf s"

function str_replace :: "string \<Rightarrow> string \<Rightarrow> string \<Rightarrow> string" where
  \<comment> \<open>\<open>s.replace(old, new)\<close>: every occurrence, leftmost first, without overlap; an empty
      \<open>old\<close> matches before every character and at the end.\<close>
  "str_replace old new [] = (if old = [] then new else [])"
| "str_replace old new (c # cs) =
     (if old = [] then new @ c # str_replace old new cs
      else if prefix old (c # cs) then new @ str_replace old new (drop (length old) (c # cs))
      else c # str_replace old new cs)"
  by pat_completeness auto
termination
  by (relation "measure (\<lambda>(old, new, s). length s)") (auto simp: neq_Nil_conv)

fun str_find :: "string \<Rightarrow> string \<Rightarrow> nat option" where
  \<comment> \<open>index of the first occurrence of \<open>pat\<close> in the text, if any\<close>
  "str_find pat [] = (if pat = [] then Some 0 else None)"
| "str_find pat (c # cs) =
     (if prefix pat (c # cs) then Some 0 else map_option Suc (str_find pat cs))"

text \<open>
  A pattern is given by its anchored matcher: applied to the text that starts at the
  current position, it returns the length of the match the backtracking engine finds there,
  or \<open>None\<close>. The functions below are \<open>re.sub\<close>, \<open>re.search(...).group(0)\<close> and
  \<open>re.findall\<close> (one group) over such a matcher: start positions are tried from left to
  right, and scanning resumes behind a match (one character further after an empty match).
\<close>

type_synonym matcher = "string \<Rightarrow> nat option"

fun re_sub :: "matcher \<Rightarrow> string \<Rightarrow> string \<Rightarrow> string" where
  "re_sub m repl [] = (case m [] of None \<Rightarrow> [] | Some n \<Rightarrow> repl)"
| "re_sub m repl (c # cs) =
     (case m (c # cs) of
        None \<Rightarrow> c # re_sub m repl cs
      | Some n \<Rightarrow>
          if n = 0 then repl @ c # re_sub m repl cs
          else repl @ re_sub m repl (drop (n - 1) cs))"

fun re_search :: "matcher \<Rightarrow> string \<Rightarrow> string option" where
  "re_search m [] = (case m [] of None \<Rightarrow> None | Some n \<Rightarrow> Some [])"
| "re_search m (c # cs) =
     (case m (c # cs) of
        None \<Rightarrow> re_search m cs
      | Some n \<Rightarrow> Some (take n (c # cs)))"

fun re_findall :: "(string \<Rightarrow> (nat \<times> string) option) \<Rightarrow> string \<Rightarrow> string list" where
  \<comment> \<open>the matcher also returns what group 1 captured\<close>
  "re_findall m [] = (case m [] of None \<Rightarrow> [] | Some (n, g) \<Rightarrow> [g])"
| "re_findall m (c # cs) =
     (case m (c # cs) of
        None \<Rightarrow> re_findall m cs
      | Some (n, g) \<Rightarrow> g # re_findall m (drop (n - 1) cs))"

definition m_lit :: "string \<Rightarrow> matcher" where
  \<comment> \<open>a pattern that is one literal string\<close>
  "m_lit p s = (if prefix p s then Some (length p) else None)"

definition m_block :: "string \<Rightarrow> string \<Rightarrow> matcher" where
  \<comment> \<open>\<open>OPEN.*?CLOSE\<close> with \<open>re.DOTALL\<close>: from the opening literal to the first closing
      literal behind it\<close>
  "m_block opn cls s =
     (if prefix opn s then
        (case str_find cls (drop (length opn) s) of
           None \<Rightarrow> None
         | Some k \<Rightarrow> Some (length opn + k + length cls))
      else None)"

definition m_line_comment :: matcher where
  \<comment> \<open>\<open>%.*\n\<close>: a percent sign, the rest of its line, and the line feed that ends it\<close>
  "m_line_comment s =
     (case s of
        [] \<Rightarrow> None
      | c # cs \<Rightarrow>
          if c = CHR ''%'' then
            (let body = takeWhile (\<lambda>x. x \<noteq> lf) cs
             in if length body < length cs then Some (length body + 2) else None)
          else None)"

definition m_newlines :: matcher where
  \<comment> \<open>\<open>\n+\<close>\<close>
  "m_newlines s =
     (let n = length (takeWhile (\<lambda>x. x = lf) s) in if 1 \<le> n then Some n else None)"

definition hspace :: "char \<Rightarrow> bool" where
  \<comment> \<open>the class \<open>[ \t\r\f]\<close>\<close>
  "hspace c = (c = CHR '' '' \<or> c = CHR 0x09 \<or> c = CHR 0x0D \<or> c = CHR 0x0C)"

definition m_spaces :: matcher where
  \<comment> \<open>\<open>[ \t\r\f]{3,}\<close>\<close>
  "m_spaces s = (let n = length (takeWhile hspace s) in if 3 \<le> n then Some n else None)"

section \<open>The content normalizer (ArxivPaper.tex, lines 186 to 195)\<close>

definition strip_line_comments :: "string \<Rightarrow> string" where
  "strip_line_comments content = re_sub m_line_comment [lf] content"

definition strip_comment_blocks :: "string \<Rightarrow> string" where
  "strip_comment_blocks content =
     re_sub (m_block (bsl # ''begin{comment}'') (bsl # ''end{comment}'')) [] content"

definition strip_iffalse_blocks :: "string \<Rightarrow> string" where
  "strip_iffalse_blocks content =
     re_sub (m_block (bsl # ''iffalse'') (bsl # ''fi'')) [] content"

definition collapse_newlines :: "string \<Rightarrow> string" where
  "collapse_newlines content = re_sub m_newlines [lf] content"

definition strip_linebreaks :: "string \<Rightarrow> string" where
  "strip_linebreaks content = re_sub (m_lit [bsl, bsl]) [] content"

definition collapse_spaces :: "string \<Rightarrow> string" where
  "collapse_spaces content = re_sub m_spaces '' '' content"

definition normalize_content :: "string \<Rightarrow> string" where
  "normalize_content content =
     collapse_spaces (strip_linebreaks (collapse_newlines
       (strip_iffalse_blocks (strip_comment_blocks (strip_line_comments content)))))"

section \<open>The source pipeline (ArxivPaper.tex)\<close>

datatype exn =
  HTTPError int      \<comment> \<open>\<open>urllib.error.HTTPError\<close> with its \<open>code\<close>\<close>
| ReadError          \<comment> \<open>\<open>tarfile.ReadError\<close>\<close>
| AttributeError
| KeyError
| IndexError
| OtherError         \<comment> \<open>any other instance of \<open>Exception\<close>\<close>

text \<open>
  A Python \<open>dict\<close> of strings: an association list in insertion order; assigning to a
  key that is present keeps its place.
\<close>

type_synonym dict = "(string \<times> string) list"

definition dict_get :: "dict \<Rightarrow> string \<Rightarrow> string \<Rightarrow> string" where
  \<comment> \<open>\<open>d.get(k, default)\<close>\<close>
  "dict_get d k dflt = (case map_of d k of None \<Rightarrow> dflt | Some v \<Rightarrow> v)"

text \<open>
  An opened archive: its members in the order of \<open>getnames()\<close>, each with the outcome of
  \<open>tar.extractfile(t).read().decode('utf-8', errors='ignore')\<close> on it, which is the work
  of the library: the decoded content (for a link, that of its target), or the exception
  raised (\<open>AttributeError\<close> for a member that is no file, where \<open>extractfile\<close> returns
  \<open>None\<close>; \<open>KeyError\<close> for a link whose target is missing). A name that occurs twice is
  read from its last occurrence.
\<close>

type_synonym tar = "(string \<times> (exn + string)) list"

definition getnames :: "tar \<Rightarrow> string list" where
  "getnames t = map fst t"

definition extract_read :: "tar \<Rightarrow> string \<Rightarrow> exn + string" where
  \<comment> \<open>\<open>tar.extractfile(t).read().decode('utf-8', errors='ignore')\<close>\<close>
  "extract_read t name =
     (case map_of (rev t) name of
        None \<Rightarrow> Inl KeyError
      | Some r \<Rightarrow> r)"

definition main_from_bbl :: "string list \<Rightarrow> string list \<Rightarrow> string option" where
  \<comment> \<open>the \<open>match len(bbl_file)\<close> statement; \<open>tex_files\<close> is not empty where it is reached\<close>
  "main_from_bbl tex_files bbl_file =
     (case bbl_file of
        [] \<Rightarrow> (if 1 < length tex_files then None
               else (case tex_files of [] \<Rightarrow> None | t # ts \<Rightarrow> Some t))
      | [b] \<Rightarrow>
          (let main_name = str_replace ''.bbl'' [] b;
               main_tex = main_name @ ''.tex''
           in if main_tex \<in> set tex_files then Some main_tex else None)
      | _ \<Rightarrow> None)"

definition has_document :: "string \<Rightarrow> bool" where
  \<comment> \<open>\<open>re.search(r'\\begin\{document\}', content)\<close> finds a match\<close>
  "has_document content = (re_search (m_lit (bsl # ''begin{document}'')) content \<noteq> None)"

fun read_tex_files :: "tar \<Rightarrow> string list \<Rightarrow> string option \<times> dict \<Rightarrow> exn + (string option \<times> dict)" where
  \<comment> \<open>the loop \<open>for t in tex_files\<close>, on the pair of \<open>main_tex\<close> and \<open>file_contents\<close>\<close>
  "read_tex_files tr [] st = Inr st"
| "read_tex_files tr (t # ts) (main_tex, file_contents) =
     (case extract_read tr t of
        Inl e \<Rightarrow> Inl e
      | Inr raw \<Rightarrow>
          (let content = normalize_content raw;
               main_tex' = (if main_tex = None \<and> has_document content then Some t else main_tex)
           in read_tex_files tr ts (main_tex', AList.update t content file_contents)))"

definition m_directive :: "string \<Rightarrow> string \<Rightarrow> (nat \<times> string) option" where
  \<comment> \<open>\<open>\\NAME\{(.+?)\}\<close>: the directive with its opening brace, then the shortest
      non-empty run without line feed that a closing brace follows\<close>
  "m_directive name s =
     (let head = bsl # name @ ''{'' in
      if prefix head s then
        (case drop (length head) s of
           [] \<Rightarrow> None
         | c # cs \<Rightarrow>
             if c = lf then None
             else
               (let more = takeWhile (\<lambda>x. x \<noteq> CHR ''}'' \<and> x \<noteq> lf) cs
                in (case drop (length more) cs of
                      [] \<Rightarrow> None
                    | d # ds \<Rightarrow>
                        if d = CHR ''}'' then Some (length head + length more + 2, c # more)
                        else None)))
      else None)"

definition input_directive :: "string \<Rightarrow> string" where
  \<comment> \<open>the f-string \<open>f'\\input{{{f}}}'\<close>\<close>
  "input_directive f = bsl # ''input{'' @ f @ ''}''"

definition include_files :: "string \<Rightarrow> string list" where
  "include_files main_source =
     re_findall (m_directive ''input'') main_source @ re_findall (m_directive ''include'') main_source"

definition inline_one :: "dict \<Rightarrow> string \<Rightarrow> string \<Rightarrow> string" where
  \<comment> \<open>the body of the loop \<open>for f in include_files\<close>\<close>
  "inline_one file_contents main_source f =
     (let file_name = (if \<not> endswith f ''.tex'' then f @ ''.tex'' else f)
      in str_replace (input_directive f) (dict_get file_contents file_name []) main_source)"

definition inline_includes :: "dict \<Rightarrow> string \<Rightarrow> string" where
  "inline_includes file_contents main_source =
     foldl (inline_one file_contents) main_source (include_files main_source)"

definition tex_of_tar :: "tar \<Rightarrow> exn + dict option" where
  \<comment> \<open>ArxivPaper.tex from line 158 on, the archive being open\<close>
  "tex_of_tar tr =
     (let tex_files = filter (\<lambda>f. endswith f ''.tex'') (getnames tr) in
      if length tex_files = 0 then Inr None
      else
        (let bbl_file = filter (\<lambda>f. endswith f ''.bbl'') (getnames tr);
             main_tex = main_from_bbl tex_files bbl_file
         in (case read_tex_files tr tex_files (main_tex, []) of
               Inl e \<Rightarrow> Inl e
             | Inr (None, file_contents) \<Rightarrow> Inr None
             | Inr (Some main, file_contents) \<Rightarrow>
                 (case map_of file_contents main of
                    None \<Rightarrow> Inl KeyError
                  | Some main_source \<Rightarrow>
                      Inr (Some (AList.update ''all''
                                   (inline_includes file_contents main_source) file_contents))))))"

definition tex :: "exn + string \<Rightarrow> (string \<Rightarrow> exn + tar) \<Rightarrow> exn + dict option" where
  \<comment> \<open>\<open>download_source\<close> is the outcome of \<open>self._paper.download_source(...)\<close>,
      \<open>tarfile_open\<close> that of \<open>tarfile.open(file)\<close>; \<open>Inl\<close> is a raised exception\<close>
  "tex download_source tarfile_open =
     (case download_source of
        Inl (HTTPError code) \<Rightarrow> if code = 404 then Inr None else Inl (HTTPError code)
      | Inl e \<Rightarrow> Inr None
      | Inr file \<Rightarrow>
          (case tarfile_open file of
             Inl ReadError \<Rightarrow> Inr None
           | Inl e \<Rightarrow> Inl e
           | Inr tr \<Rightarrow> tex_of_tar tr))"

definition opens :: "tar \<Rightarrow> string \<Rightarrow> exn + tar" where
  \<comment> \<open>a \<open>tarfile.open\<close> that succeeds with the given archive\<close>
  "opens tr file = Inr tr"

section \<open>The regions of the summary prompt (ArxivPaper.tldr, lines 225 to 244)\<close>

definition brace_group :: matcher where
  \<comment> \<open>\<open>\{.*?\}\<close> without \<open>re.DOTALL\<close>: an opening brace and the first closing brace
      behind it on the same line\<close>
  "brace_group s =
     (case s of
        [] \<Rightarrow> None
      | c # cs \<Rightarrow>
          if c = CHR ''{'' then
            (let body = takeWhile (\<lambda>x. x \<noteq> CHR ''}'' \<and> x \<noteq> lf) cs
             in (case drop (length body) cs of
                   [] \<Rightarrow> None
                 | d # ds \<Rightarrow> if d = CHR ''}'' then Some (length body + 2) else None))
          else None)"

definition m_cite :: matcher where
  \<comment> \<open>\<open>~?\\cite.?\{.*?\}\<close>: the greedy \<open>.?\<close> first takes one character that is not a
      line feed, and takes none when the rest does not match behind it\<close>
  "m_cite s =
     (let tilde = (case s of [] \<Rightarrow> 0 | c # cs \<Rightarrow> if c = CHR ''~'' then 1 else (0::nat));
          r = drop tilde s
      in if prefix (bsl # ''cite'') r then
           (let r' = drop (length (bsl # ''cite'')) r;
                one = (case r' of
                         [] \<Rightarrow> None
                       | c # cs \<Rightarrow> if c = lf then None else map_option Suc (brace_group cs))
            in (case one of
                  Some n \<Rightarrow> Some (tilde + length (bsl # ''cite'') + n)
                | None \<Rightarrow>
                    map_option (\<lambda>n. tilde + length (bsl # ''cite'') + n) (brace_group r')))
         else None)"

definition end_words :: "string list" where
  \<comment> \<open>the alternatives \<open>\\section|\\end\{document\}|\\bibliography|\\appendix\<close>\<close>
  "end_words = [bsl # ''section'', bsl # ''end{document}'', bsl # ''bibliography'', bsl # ''appendix'']"

fun alt_match :: "string list \<Rightarrow> matcher" where
  \<comment> \<open>an alternation of literals: the first alternative that matches\<close>
  "alt_match [] s = None"
| "alt_match (p # ps) s = (if prefix p s then Some (length p) else alt_match ps s)"

fun region_end :: "string \<Rightarrow> nat" where
  \<comment> \<open>the length that \<open>.*?(\\section|...|$)\<close> matches with \<open>re.DOTALL\<close>: the lazy \<open>.*?\<close>
      stops at the first position where an end word starts or \<open>$\<close> holds, which is at the
      end of the text and before a line feed that ends the text\<close>
  "region_end [] = 0"
| "region_end (c # cs) =
     (case alt_match end_words (c # cs) of
        Some n \<Rightarrow> n
      | None \<Rightarrow> if c = lf \<and> cs = [] then 0 else Suc (region_end cs))"

definition section_heading :: "string \<Rightarrow> string" where
  "section_heading name = bsl # ''section{'' @ name @ ''}''"

definition m_section :: "string \<Rightarrow> matcher" where
  \<comment> \<open>\<open>\\section\{NAME\}.*?(\\section|\\end\{document\}|\\bibliography|\\appendix|$)\<close>\<close>
  "m_section name s =
     (if prefix (section_heading name) s
      then Some (length (section_heading name)
                 + region_end (drop (length (section_heading name)) s))
      else None)"

fun str_join :: "string \<Rightarrow> string list \<Rightarrow> string" where
  \<comment> \<open>\<open>sep.join(xs)\<close>\<close>
  "str_join sep [] = []"
| "str_join sep [x] = x"
| "str_join sep (x # y # ys) = x @ sep @ str_join sep (y # ys)"

definition remove_noise :: "string \<Rightarrow> string" where
  \<comment> \<open>lines 232 to 236: citations, figure blocks and table blocks are removed\<close>
  "remove_noise content =
     re_sub (m_block (bsl # ''begin{table}'') (bsl # ''end{table}'')) []
       (re_sub (m_block (bsl # ''begin{figure}'') (bsl # ''end{figure}'')) []
          (re_sub m_cite [] content))"

definition region :: "string \<Rightarrow> string \<Rightarrow> string" where
  \<comment> \<open>\<open>match.group(0)\<close> of the search for the section \<open>name\<close> when there is a match; the
      variable keeps its initial \<open>""\<close> otherwise\<close>
  "region name content =
     (case re_search (m_section name) content of None \<Rightarrow> [] | Some g \<Rightarrow> g)"

definition regions :: "dict option \<Rightarrow> string \<times> string" where
  \<comment> \<open>the values of \<open>introduction\<close> and \<open>conclusion\<close> at line 245\<close>
  "regions tx =
     (case tx of
        None \<Rightarrow> ([], [])
      | Some d \<Rightarrow>
          (let content = (case map_of d ''all'' of
                            Some c \<Rightarrow> c
                          | None \<Rightarrow> str_join [lf] (map snd d));
               content = remove_noise content
           in (region ''Introduction'' content, region ''Conclusion'' content)))"

section \<open>The reply of the language model (ArxivPaper.affiliations, lines 370 to 378)\<close>

text \<open>
  The interpreter's part is taken as parameters, each with the three ways in which a call
  can end: it returns, it raises an instance of \<open>Exception\<close>, which the clause
  \<open>except Exception\<close> of line 375 catches, or it raises an exception outside \<open>Exception\<close>,
  which that clause lets pass (\<open>eval\<close> runs the text of the reply: on \<open>[exit()]\<close> it raises
  \<open>SystemExit\<close>). \<open>py_eval\<close> is \<open>eval\<close> on the matched text, which starts with an opening
  bracket and holds no closing bracket before its last character, so that what it returns
  is a list; \<open>py_set_list\<close> is \<open>list(set(...))\<close>, which raises on a value that cannot be
  hashed; \<open>py_str\<close> is \<open>str\<close>. Values that Python's \<open>==\<close> identifies are equal.
\<close>

datatype base_exn = SystemExit | KeyboardInterrupt | GeneratorExit





section \<open>The link to the PDF (ArxivPaper.pdf_url, lines 36 to 52)\<close>

record link =
  href :: string

text \<open>
  The wrapped \<open>arxiv.Result\<close>; \<open>res_short_id\<close> is what its method \<open>get_short_id()\<close>
  returns.
\<close>

record arxiv_result =
  res_title :: string
  res_summary :: string
  res_authors :: "string list"
  res_short_id :: string
  res_pdf_url :: "string option"
  res_links :: "link list option"

text \<open>
  The \<open>ArxivPaper\<close> object, as far as \<open>pdf_url\<close> reads and writes it: the wrapped record
  \<open>_paper\<close>, and the value that \<open>cached_property\<close> stores for \<open>arxiv_id\<close> at its first
  access.
\<close>

record arxiv_paper =
  paper :: arxiv_result
  arxiv_id_cache :: "string option"

definition digit :: "char \<Rightarrow> bool" where
  \<comment> \<open>the class \<open>\d\<close> within the range of \<open>char\<close>: the ASCII digits (the decimal digits of
      other scripts, which \<open>\d\<close> matches on a \<open>str\<close> too, lie above that range)\<close>
  "digit c = (c \<in> set ''0123456789'')"

definition m_version :: matcher where
  \<comment> \<open>\<open>v\d+$\<close>: \<open>$\<close> holds at the end of the text and before a line feed that ends it\<close>
  "m_version s =
     (case s of
        [] \<Rightarrow> None
      | c # cs \<Rightarrow>
          if c = CHR ''v'' then
            (let ds = takeWhile digit cs; rest = drop (length ds) cs
             in if 1 \<le> length ds \<and> (rest = [] \<or> rest = [lf]) then Some (length ds + 1)
                else None)
          else None)"

definition arxiv_id :: "arxiv_paper \<Rightarrow> string \<times> arxiv_paper" where
  "arxiv_id self =
     (case arxiv_id_cache self of
        Some v \<Rightarrow> (v, self)
      | None \<Rightarrow>
          (let v = re_sub m_version [] (res_short_id (paper self))
           in (v, self\<lparr>arxiv_id_cache := Some v\<rparr>)))"

definition pdf_url :: "arxiv_paper \<Rightarrow> (exn + string) \<times> arxiv_paper" where
  \<comment> \<open>the outcome of one access, and the object after it\<close>
  "pdf_url self =
     (case res_pdf_url (paper self) of
        Some u \<Rightarrow> (Inr u, self)
      | None \<Rightarrow>
          (let (aid, self) = arxiv_id self;
               url = ''https://arxiv.org/pdf/'' @ aid @ ''.pdf''
           in (case res_links (paper self) of
                 None \<Rightarrow> (Inr url, self\<lparr>paper := (paper self)\<lparr>res_pdf_url := Some url\<rparr>\<rparr>)
               | Some [] \<Rightarrow> (Inl IndexError, self)
               | Some (l # ls) \<Rightarrow>
                   (let url = str_replace ''abs'' ''pdf'' (href l)
                    in (Inr url, self\<lparr>paper := (paper self)\<lparr>res_pdf_url := Some url\<rparr>\<rparr>)))))"

section \<open>Notions used to state and prove the properties\<close>



fun comment_free :: "string \<Rightarrow> bool" where
  \<comment> \<open>no line feed stands behind a percent sign\<close>
  "comment_free [] = True"
| "comment_free (c # cs) = ((c = CHR ''%'' \<longrightarrow> lf \<notin> set cs) \<and> comment_free cs)"

fun single_lf :: "string \<Rightarrow> bool" where
  \<comment> \<open>no two line feeds stand side by side\<close>
  "single_lf [] = True"
| "single_lf (c # cs) = (\<not> (c = lf \<and> prefix [lf] cs) \<and> single_lf cs)"

fun short_runs :: "string \<Rightarrow> bool" where
  \<comment> \<open>no three characters of \<open>[ \t\r\f]\<close> stand side by side\<close>
  "short_runs [] = True"
| "short_runs (c # cs) = (length (takeWhile hspace (c # cs)) < 3 \<and> short_runs cs)"

section \<open>Sample inputs\<close>




definition sample_result :: "link list option \<Rightarrow> arxiv_result" where
  \<comment> \<open>a metadata record without pdf link\<close>
  "sample_result ls =
     \<lparr>res_title = ''T'', res_summary = ''S'', res_authors = [''A''],
      res_short_id = ''2401.00001v2'', res_pdf_url = None, res_links = ls\<rparr>"

section \<open>Failures of the download\<close>

text \<open>
  C8. When \<open>download_source\<close> raises an HTTP error with code 404, \<open>tex\<close> returns \<open>None\<close>;
  an HTTP error with any other code is raised again to the caller; every exception that
  is not an HTTP error is caught and \<open>tex\<close> returns \<open>None\<close>. (The type \<open>exn\<close> holds the
  instances of \<open>Exception\<close>, which is what the clause \<open>except Exception\<close> catches.)
\<close>

theorem tex_download_errors:
  "tex (Inl (HTTPError 404)) tarfile_open = Inr None
   \<and> (code \<noteq> 404 \<longrightarrow> tex (Inl (HTTPError code)) tarfile_open = Inl (HTTPError code))
   \<and> ((\<forall>c. e \<noteq> HTTPError c) \<longrightarrow> tex (Inl e) tarfile_open = Inr None)"
  by (cases e) (simp_all add: tex_def)

theorem tex_download_errors_witness:
  "(503::int) \<noteq> 404 \<and> (\<forall>c. ReadError \<noteq> HTTPError c)
   \<and> tex (Inl (HTTPError 404)) (opens []) = Inr None
   \<and> tex (Inl (HTTPError 503)) (opens []) = Inl (HTTPError 503)
   \<and> tex (Inl ReadError) (opens []) = Inr None"
  using tex_download_errors [of "opens []" 503 ReadError] by simp

section \<open>Bundles without source text\<close>

text \<open>
  C5, as the code has it. For a bundle that holds no member ending in \<open>.tex\<close>, \<open>tex\<close>
  returns \<open>None\<close>: there is no mapping at all, neither an empty one nor one without the
  key \<open>all\<close>.
\<close>

theorem tex_no_tex_files:
  "tarfile_open file = Inr tr \<Longrightarrow> \<forall>f \<in> set (getnames tr). \<not> endswith f ''.tex''
   \<Longrightarrow> tex (Inr file) tarfile_open = Inr None"
  by (simp add: tex_def tex_of_tar_def filter_empty_conv [THEN iffD2])

theorem tex_no_tex_files_witness:
  "opens [(''refs.bbl'', Inr ''x'')] ''src.tar'' = Inr [(''refs.bbl'', Inr ''x'')]
   \<and> getnames [(''refs.bbl'', Inr ''x'')] = [''refs.bbl'']
   \<and> tex (Inr ''src.tar'') (opens [(''refs.bbl'', Inr ''x'')]) = Inr None"
  using tex_no_tex_files [of "opens [(''refs.bbl'', Inr ''x'')]" "''src.tar''"
      "[(''refs.bbl'', Inr ''x'')]"]
  by (simp add: opens_def getnames_def endswith_def suffix_to_prefix)

text \<open>
  The claim as the specification words it, an empty mapping as the result, fails on a
  bundle of one bibliography file.
\<close>

theorem tex_no_tex_files_counterexample:
  "tex (Inr ''src.tar'') (opens [(''refs.bbl'', Inr ''x'')]) \<noteq> Inr (Some [])"
  by (simp add: tex_def tex_of_tar_def opens_def getnames_def endswith_def suffix_to_prefix)

section \<open>The main document from the bibliography file\<close>

text \<open>
  Where the name of the bibliography file holds \<open>.bbl\<close> at its end only, the source
  file of the same stem is selected, wherever it stands among the source files.
\<close>

lemma str_replace_suffix_only:
  assumes "p \<noteq> []" and "\<forall>k < length stem. \<not> prefix p (drop k (stem @ p))"
  shows "str_replace p [] (stem @ p) = stem"
  using assms(2)
proof (induction stem)
  case Nil
  from assms(1) obtain c cs where "p = c # cs" by (cases p) auto
  then show ?case by simp
next
  case (Cons c stem)
  from Cons.prems have 0: "\<not> prefix p (c # stem @ p)" by (auto dest: spec [of _ 0])
  have "\<forall>k < length stem. \<not> prefix p (drop k (stem @ p))"
  proof (intro allI impI)
    fix k assume "k < length stem"
    then have "Suc k < length (c # stem)" by simp
    from Cons.prems [rule_format, OF this] show "\<not> prefix p (drop k (stem @ p))" by simp
  qed
  with Cons.IH 0 assms(1) show ?case by simp
qed

lemma main_from_bbl_suffix_only:
  assumes "\<forall>k < length stem. \<not> prefix ''.bbl'' (drop k (stem @ ''.bbl''))"
    and "stem @ ''.tex'' \<in> set tex_files"
  shows "main_from_bbl tex_files [stem @ ''.bbl''] = Some (stem @ ''.tex'')"
proof -
  have "str_replace ''.bbl'' [] (stem @ ''.bbl'') = stem"
    by (rule str_replace_suffix_only [OF _ assms(1)]) simp
  with assms(2) show ?thesis by (simp add: main_from_bbl_def)
qed

text \<open>
  C7, at an input where the code departs from it. The bundle holds the one bibliography
  file \<open>main.bbl.bbl\<close> and the source file of the same stem, \<open>main.bbl.tex\<close>. The code
  deletes every \<open>.bbl\<close> of the name, not the suffix alone, looks for \<open>main.tex\<close>, and
  selects nothing; the document marker of another file then decides.
\<close>

theorem main_from_bbl_inner_bbl:
  "main_from_bbl [''main.bbl.tex''] [''main.bbl.bbl''] = None
   \<and> tex_of_tar [(''notes.tex'', Inr (bsl # ''begin{document}'')),
                  (''main.bbl.tex'', Inr ''text''),
                  (''main.bbl.bbl'', Inr [])]
       = Inr (Some [(''notes.tex'', bsl # ''begin{document}''),
                    (''main.bbl.tex'', ''text''),
                    (''all'', bsl # ''begin{document}'')])"
  by code_simp

section \<open>Inlining of the included files\<close>

text \<open>
  C1, at an input where the code departs from it. The bundle holds \<open>main.tex\<close>, whose
  document is \<open>\include{a}\<close>, and \<open>a.tex\<close>. The name \<open>a\<close> is found, but the replacement
  looks for the text \<open>\input{a}\<close> only, so the directive stays in the flattened document.
\<close>

theorem inline_includes_keeps_include:
  "include_files (bsl # ''begin{document}'' @ bsl # ''include{a}'' @ bsl # ''end{document}'')
     = [''a'']
   \<and> tex (Inr ''src.tar'')
         (opens [(''main.tex'', Inr (bsl # ''begin{document}'' @ bsl # ''include{a}''
                                      @ bsl # ''end{document}'')),
                 (''a.tex'', Inr ''AAA'')])
       = Inr (Some [(''main.tex'', bsl # ''begin{document}'' @ bsl # ''include{a}''
                                    @ bsl # ''end{document}''),
                    (''a.tex'', ''AAA''),
                    (''all'', bsl # ''begin{document}'' @ bsl # ''include{a}''
                               @ bsl # ''end{document}'')])"
  by code_simp

section \<open>The first bracketed text of a reply\<close>










section \<open>The link to the PDF\<close>

text \<open>
  Where the record has no pdf link and its list of links is absent or holds a link, one
  access of \<open>pdf_url\<close> returns a URL (built from the identifier when the list is absent,
  from the first link otherwise), leaves the record as it was but for the pdf link, which
  now holds the URL, and a second access returns the same URL and changes nothing.
\<close>

lemma pdf_url_stores:
  assumes "res_pdf_url (paper self) = None" and "res_links (paper self) \<noteq> Some []"
  shows "\<exists>u self'. pdf_url self = (Inr u, self')
           \<and> u = (case res_links (paper self) of
                    None \<Rightarrow> ''https://arxiv.org/pdf/'' @ fst (arxiv_id self) @ ''.pdf''
                  | Some ls \<Rightarrow> str_replace ''abs'' ''pdf'' (href (hd ls)))
           \<and> paper self' = (paper self)\<lparr>res_pdf_url := Some u\<rparr>
           \<and> pdf_url self' = (Inr u, self')"
  using assms
  by (auto simp: pdf_url_def arxiv_id_def Let_def split: option.splits list.splits)

text \<open>
  C10, at an input where the code departs from it. The record has no pdf link and an
  empty list of links, as an \<open>arxiv.Result\<close> built without links has. The test of line 46
  is \<open>is not None\<close>, the empty list passes it, and \<open>links[0]\<close> raises \<open>IndexError\<close>: no URL
  is returned and the pdf link of the record stays absent, although the URL built from
  the identifier has been computed at line 45. On the same record without a list of links
  that URL is returned and stored.
\<close>

theorem pdf_url_empty_links:
  "fst (pdf_url \<lparr>paper = sample_result (Some []), arxiv_id_cache = None\<rparr>) = Inl IndexError
   \<and> res_pdf_url (paper (snd (pdf_url \<lparr>paper = sample_result (Some []),
                                         arxiv_id_cache = None\<rparr>))) = None
   \<and> fst (pdf_url \<lparr>paper = sample_result None, arxiv_id_cache = None\<rparr>)
       = Inr ''https://arxiv.org/pdf/2401.00001.pdf''
   \<and> res_pdf_url (paper (snd (pdf_url \<lparr>paper = sample_result None, arxiv_id_cache = None\<rparr>)))
       = Some ''https://arxiv.org/pdf/2401.00001.pdf''"
  by code_simp

section \<open>Line comments\<close>

lemma takeWhile_upto:
  "c \<notin> set l \<Longrightarrow> takeWhile (\<lambda>x. x \<noteq> c) (l @ c # rest) = l"
  by (induction l) auto

lemma takeWhile_all:
  "c \<notin> set l \<Longrightarrow> takeWhile (\<lambda>x. x \<noteq> c) l = l"
  by (induction l) auto

lemma m_line_comment_no_lf:
  "lf \<notin> set s \<Longrightarrow> m_line_comment s = None"
  by (cases s) (simp_all add: m_line_comment_def takeWhile_all)

lemma m_line_comment_other:
  "a \<noteq> CHR ''%'' \<Longrightarrow> m_line_comment (a # s) = None"
  by (simp add: m_line_comment_def)

lemma m_line_comment_percent:
  "lf \<notin> set l \<Longrightarrow> m_line_comment (CHR ''%'' # l @ lf # rest) = Some (length l + 2)"
  by (simp add: m_line_comment_def takeWhile_upto)

lemma strip_line_comments_line:
  "lf \<notin> set l \<Longrightarrow>
   re_sub m_line_comment [lf] (l @ lf # rest)
     = takeWhile (\<lambda>c. c \<noteq> CHR ''%'') l @ lf # re_sub m_line_comment [lf] rest"
proof (induction l)
  case Nil
  then show ?case by (simp add: m_line_comment_other)
next
  case (Cons a l)
  show ?case
  proof (cases "a = CHR ''%''")
    case True
    with Cons.prems have "m_line_comment (a # l @ lf # rest) = Some (length l + 2)"
      by (simp add: m_line_comment_percent)
    with True show ?thesis by simp
  next
    case False
    then have "m_line_comment (a # l @ lf # rest) = None"
      by (rule m_line_comment_other)
    with False Cons show ?thesis by simp
  qed
qed

lemma strip_line_comments_last:
  "lf \<notin> set r \<Longrightarrow> re_sub m_line_comment [lf] r = r"
proof (induction r)
  case Nil
  then show ?case by (simp add: m_line_comment_no_lf)
next
  case (Cons a r)
  then have "m_line_comment (a # r) = None" by (intro m_line_comment_no_lf) simp
  with Cons show ?case by simp
qed

text \<open>
  C4, as the code has it. The first step of the normalizer removes, on every line that a
  line feed ends, everything from the first percent sign of the line to its end, whether
  a backslash stands before the percent sign or not, and keeps the line feed. A last line
  that no line feed ends is left as it is.
\<close>

theorem strip_line_comments_lines:
  "\<forall>l \<in> set ls. lf \<notin> set l \<Longrightarrow> lf \<notin> set r \<Longrightarrow>
   strip_line_comments (concat (map (\<lambda>l. l @ [lf]) ls) @ r)
     = concat (map (\<lambda>l. takeWhile (\<lambda>c. c \<noteq> CHR ''%'') l @ [lf]) ls) @ r"
proof (induction ls)
  case Nil
  then show ?case by (simp add: strip_line_comments_def strip_line_comments_last)
next
  case (Cons l ls)
  then show ?case
    using strip_line_comments_line [of l "concat (map (\<lambda>l. l @ [lf]) ls) @ r"]
    by (simp add: strip_line_comments_def)
qed

theorem strip_line_comments_lines_witness:
  "strip_line_comments (concat (map (\<lambda>l. l @ [lf]) [''a % b'', ''50'' @ bsl # ''% of c'', ''d'']) @ ''e % f'')
     = concat (map (\<lambda>l. l @ [lf]) [''a '', ''50'' @ [bsl], ''d'']) @ ''e % f''"
  using strip_line_comments_lines [of "[''a % b'', ''50'' @ bsl # ''% of c'', ''d'']" "''e % f''"]
  by simp

text \<open>
  The claim as the specification words it fails: the text behind an escaped percent sign
  is removed with it.
\<close>

theorem strip_line_comments_counterexample:
  "normalize_content (''50'' @ bsl # ''% of all'' @ [lf]) = ''50'' @ [bsl, lf]"
  by code_simp

section \<open>The regions of a section\<close>

lemma alt_match_None: "alt_match ws s = None \<longleftrightarrow> (\<forall>w \<in> set ws. \<not> prefix w s)"
  by (induction ws) auto

lemma alt_match_end_word:
  "w \<in> set end_words \<Longrightarrow> alt_match end_words (w @ post) = Some (length w)"
  by (auto simp: end_words_def)

lemma region_end_skip:
  "(\<forall>k < length body. alt_match end_words (drop k (body @ rest)) = None
                       \<and> drop k (body @ rest) \<noteq> [lf])
   \<Longrightarrow> region_end (body @ rest) = length body + region_end rest"
proof (induction body)
  case Nil
  then show ?case by simp
next
  case (Cons a body)
  from Cons.prems have 0: "alt_match end_words (a # body @ rest) = None" "a # body @ rest \<noteq> [lf]"
    by (auto dest: spec [of _ 0])
  have "\<forall>k < length body. alt_match end_words (drop k (body @ rest)) = None
                       \<and> drop k (body @ rest) \<noteq> [lf]"
  proof (intro allI impI)
    fix k assume "k < length body"
    then have "Suc k < length (a # body)" by simp
    from Cons.prems [rule_format, OF this]
    show "alt_match end_words (drop k (body @ rest)) = None \<and> drop k (body @ rest) \<noteq> [lf]"
      by simp
  qed
  from Cons.IH [OF this] 0 show ?case by auto
qed

lemma region_end_word:
  "w \<in> set end_words \<Longrightarrow> region_end (w @ post) = length w"
proof -
  assume w: "w \<in> set end_words"
  then obtain c cs where "w = c # cs" by (auto simp: end_words_def)
  with alt_match_end_word [OF w, of post] show ?thesis by simp
qed

lemma region_end_lf: "region_end [lf] = 0"
  by (simp add: end_words_def)

lemma prefix_append_short:
  "length xs \<le> length ys \<Longrightarrow> prefix xs (ys @ zs) \<longleftrightarrow> prefix xs ys"
  by (auto simp: prefix_append)

lemma search_section_first:
  "(\<forall>k < length pre. \<not> prefix (section_heading name) (drop k (pre @ section_heading name)))
   \<Longrightarrow> re_search (m_section name) (pre @ section_heading name @ rest)
       = Some (section_heading name @ take (region_end rest) rest)"
proof (induction pre)
  case Nil
  then show ?case by (simp add: m_section_def section_heading_def)
next
  case (Cons a pre)
  from Cons.prems have "\<not> prefix (section_heading name) (a # pre @ section_heading name)"
    by (auto dest: spec [of _ 0])
  then have n: "\<not> prefix (section_heading name) (a # pre @ section_heading name @ rest)"
    using prefix_append_short [of "section_heading name" "a # pre @ section_heading name" rest]
    by simp
  have "\<forall>k < length pre. \<not> prefix (section_heading name) (drop k (pre @ section_heading name))"
  proof (intro allI impI)
    fix k assume "k < length pre"
    then have "Suc k < length (a # pre)" by simp
    from Cons.prems [rule_format, OF this]
    show "\<not> prefix (section_heading name) (drop k (pre @ section_heading name))" by simp
  qed
  from Cons.IH [OF this] n show ?case by (simp add: m_section_def)
qed

lemma search_section_none:
  "\<not> sublist (section_heading name) c \<Longrightarrow> re_search (m_section name) c = None"
proof (induction c)
  case Nil
  then show ?case by (simp add: m_section_def section_heading_def)
next
  case (Cons a c)
  then have "\<not> prefix (section_heading name) (a # c)" "\<not> sublist (section_heading name) c"
    by (auto simp: sublist_Cons_right)
  with Cons.IH show ?case by (simp add: m_section_def)
qed

text \<open>
  C2, as the code has it. The text searched is the flattened document without its
  citations, figure blocks and table blocks. When the heading of the section does not
  occur in it, the region is empty. Otherwise the region starts at the first occurrence
  of the heading and runs to the end of the first end word that starts behind the
  heading (\<open>\section\<close>, \<open>\end{document}\<close>, \<open>\bibliography\<close> or \<open>\appendix\<close>), the end word
  included. When no end word follows, it runs to the end of the text, but for one line
  feed when the text ends in a line feed: that last line feed is left out (and a line
  feed before it is kept).
\<close>

theorem region_extent:
  assumes flat: "map_of d ''all'' = Some flat"
    and first:
    "\<forall>k < length pre. \<not> prefix (section_heading name) (drop k (pre @ section_heading name))"
  shows "regions (Some d) = (region ''Introduction'' (remove_noise flat),
                             region ''Conclusion'' (remove_noise flat))
       \<and> (\<not> sublist (section_heading name) c \<longrightarrow> region name c = [])
       \<and> (w \<in> set end_words
            \<and> (\<forall>k < length body. \<forall>v \<in> set end_words. \<not> prefix v (drop k (body @ w @ post)))
          \<longrightarrow> region name (pre @ section_heading name @ body @ w @ post)
                = section_heading name @ body @ w)
       \<and> ((\<forall>k < length body. \<forall>v \<in> set end_words. \<not> prefix v (drop k body))
          \<longrightarrow> region name (pre @ section_heading name @ body @ [lf])
                = section_heading name @ body
              \<and> (body = [] \<or> last body \<noteq> lf
                   \<longrightarrow> region name (pre @ section_heading name @ body)
                         = section_heading name @ body))"
proof (intro conjI impI)
  from flat show "regions (Some d) = (region ''Introduction'' (remove_noise flat),
                                      region ''Conclusion'' (remove_noise flat))"
    by (simp add: regions_def Let_def)
next
  assume "\<not> sublist (section_heading name) c"
  then show "region name c = []" by (simp add: region_def search_section_none)
next
  assume a: "w \<in> set end_words
            \<and> (\<forall>k < length body. \<forall>v \<in> set end_words. \<not> prefix v (drop k (body @ w @ post)))"
  then obtain x xs where w: "w = x # xs" by (auto simp: end_words_def)
  have "\<forall>k < length body. alt_match end_words (drop k (body @ w @ post)) = None
                       \<and> drop k (body @ w @ post) \<noteq> [lf]"
  proof (intro allI impI conjI)
    fix k assume k: "k < length body"
    with a show "alt_match end_words (drop k (body @ w @ post)) = None"
      by (simp add: alt_match_None)
    from k have L: "2 \<le> length (drop k (body @ w @ post))" using w by simp
    show "drop k (body @ w @ post) \<noteq> [lf]"
    proof
      assume e: "drop k (body @ w @ post) = [lf]"
      have "length (drop k (body @ w @ post)) = length [lf]" by (simp only: e)
      with L show False by simp
    qed
  qed
  from region_end_skip [OF this] a
  have "region_end (body @ w @ post) = length body + length w"
    by (simp add: region_end_word)
  with search_section_first [OF first, of "body @ w @ post"]
  show "region name (pre @ section_heading name @ body @ w @ post)
          = section_heading name @ body @ w"
    by (simp add: region_def)
next
  assume a: "\<forall>k < length body. \<forall>v \<in> set end_words. \<not> prefix v (drop k body)"
  have 2: "\<forall>k < length body. alt_match end_words (drop k (body @ [lf])) = None
                       \<and> drop k (body @ [lf]) \<noteq> [lf]"
  proof (intro allI impI conjI)
    fix k assume k: "k < length body"
    have "\<And>v. v \<in> set end_words \<Longrightarrow> lf \<notin> set v" by (auto simp: end_words_def)
    then have "\<And>v. v \<in> set end_words \<Longrightarrow> prefix v (drop k body @ [lf]) \<Longrightarrow> prefix v (drop k body)"
      by (metis prefix_snoc in_set_conv_decomp)
    with k a show "alt_match end_words (drop k (body @ [lf])) = None"
      by (auto simp: alt_match_None)
    from k have L: "2 \<le> length (drop k (body @ [lf]))" by simp
    show "drop k (body @ [lf]) \<noteq> [lf]"
    proof
      assume e: "drop k (body @ [lf]) = [lf]"
      have "length (drop k (body @ [lf])) = length [lf]" by (simp only: e)
      with L show False by simp
    qed
  qed
  from region_end_skip [OF 2] have e2: "region_end (body @ [lf]) = length body"
    by (simp only: region_end_lf add_0_right)
  from search_section_first [OF first, of "body @ [lf]"] e2
  show "region name (pre @ section_heading name @ body @ [lf]) = section_heading name @ body"
    by (simp add: region_def)
next
  assume a: "\<forall>k < length body. \<forall>v \<in> set end_words. \<not> prefix v (drop k body)"
    and l: "body = [] \<or> last body \<noteq> lf"
  have 1: "\<forall>k < length body. alt_match end_words (drop k (body @ [])) = None
                       \<and> drop k (body @ []) \<noteq> [lf]"
  proof (intro allI impI conjI)
    fix k assume k: "k < length body"
    with a show "alt_match end_words (drop k (body @ [])) = None"
      by (simp add: alt_match_None)
    from k l have "last (drop k body) \<noteq> lf" by auto
    then show "drop k (body @ []) \<noteq> [lf]" by auto
  qed
  from region_end_skip [OF 1] have e1: "region_end body = length body" by simp
  from search_section_first [OF first, of body] e1
  show "region name (pre @ section_heading name @ body) = section_heading name @ body"
    by (simp add: region_def)
qed

theorem region_extent_witness:
  "regions (Some [(''main.tex'', ''no heading''), (''all'', ''no heading'')])
     = (region ''Introduction'' (remove_noise ''no heading''),
        region ''Conclusion'' (remove_noise ''no heading''))
   \<and> region ''Introduction'' ''no heading'' = []
   \<and> region ''Introduction'' (''ab'' @ section_heading ''Introduction'' @ ''Foo.''
        @ (bsl # ''section'') @ ''{Conclusion}Baz.'')
       = section_heading ''Introduction'' @ ''Foo.'' @ bsl # ''section''
   \<and> region ''Introduction'' (''ab'' @ section_heading ''Introduction'' @ ''Foo.'')
       = section_heading ''Introduction'' @ ''Foo.''
   \<and> region ''Introduction'' (''ab'' @ section_heading ''Introduction'' @ ''Foo.'' @ [lf])
       = section_heading ''Introduction'' @ ''Foo.''
   \<and> region ''Introduction'' (''ab'' @ section_heading ''Introduction'' @ (''Foo.'' @ [lf]) @ [lf])
       = section_heading ''Introduction'' @ ''Foo.'' @ [lf]"
  using region_extent [where d = "[(''main.tex'', ''no heading''), (''all'', ''no heading'')]"
      and flat = "''no heading''"
      and name = "''Introduction''" and pre = "''ab''" and c = "''no heading''"
      and body = "''Foo.''" and w = "bsl # ''section''" and post = "''{Conclusion}Baz.''"]
    region_extent [where d = "[(''main.tex'', ''no heading''), (''all'', ''no heading'')]"
      and flat = "''no heading''"
      and name = "''Introduction''" and pre = "''ab''" and body = "''Foo.'' @ [lf]"]
  by (simp add: section_heading_def end_words_def sublist_Cons_right All_less_Suc)

text \<open>
  The claim as the specification words it, a region that ends before the next section
  heading, fails on the scenario of the specification: the introduction ends with the
  \<open>\section\<close> of the conclusion.
\<close>

theorem region_extent_counterexample:
  "fst (regions (Some [(''all'',
          bsl # ''section{Introduction}Foo bar.'' @ bsl # ''section{Conclusion}Baz.''
          @ bsl # ''end{document}'')]))
     = bsl # ''section{Introduction}Foo bar.'' @ bsl # ''section''"
  by code_simp

section \<open>Nested directives\<close>

















lemma m_directive_Some:
  assumes "m_directive name s = Some (n, g)"
  shows "prefix (bsl # name @ ''{'' @ g @ ''}'') s"
proof -
  let ?head = "bsl # name @ ''{''"
  let ?P = "\<lambda>x. x \<noteq> CHR ''}'' \<and> x \<noteq> lf"
  from assms have h: "prefix ?head s"
    by (auto simp: m_directive_def Let_def split: if_splits)
  then obtain t where t: "s = ?head @ t" by (auto simp: prefix_def)
  with assms obtain c cs where c: "t = c # cs"
    by (cases t) (auto simp: m_directive_def Let_def split: if_splits)
  from assms t c obtain ds
    where d: "drop (length (takeWhile ?P cs)) cs = CHR ''}'' # ds" and g: "g = c # takeWhile ?P cs"
    by (auto simp: m_directive_def Let_def split: if_splits list.splits)
  have "cs = takeWhile ?P cs @ drop (length (takeWhile ?P cs)) cs"
    by (metis takeWhile_dropWhile_id dropWhile_eq_drop)
  with d have "cs = takeWhile ?P cs @ CHR ''}'' # ds" by simp
  with t c g have "s = (bsl # name @ ''{'' @ g @ ''}'') @ ds" by simp
  then show ?thesis by (metis prefixI)
qed

lemma re_findall_matched:
  "g \<in> set (re_findall m s) \<Longrightarrow> \<exists>k n. m (drop k s) = Some (n, g)"
proof (induction s rule: length_induct)
  case (1 s)
  show ?case
  proof (cases s)
    case Nil
    with "1.prems" have "\<exists>n. m [] = Some (n, g)" by (cases "m []") auto
    with Nil show ?thesis by auto
  next
    case (Cons c cs)
    show ?thesis
    proof (cases "m (c # cs)")
      case None
      with Cons "1.prems" have "g \<in> set (re_findall m cs)" by simp
      moreover from Cons have "length cs < length s" by simp
      ultimately obtain k n where "m (drop k cs) = Some (n, g)" using 1 by blast
      with Cons have "m (drop (Suc k) s) = Some (n, g)" by simp
      then show ?thesis by blast
    next
      case (Some a)
      obtain n g' where a: "a = (n, g')" by (cases a)
      show ?thesis
      proof (cases "g = g'")
        case True
        with Some a Cons have "m (drop 0 s) = Some (n, g)" by simp
        then show ?thesis by blast
      next
        case False
        with Some a Cons "1.prems" have "g \<in> set (re_findall m (drop (n - 1) cs))" by simp
        moreover from Cons have "length (drop (n - 1) cs) < length s" by simp
        ultimately obtain k n' where "m (drop k (drop (n - 1) cs)) = Some (n', g)"
          using 1 by blast
        with Cons have "m (drop (Suc (k + (n - 1))) s) = Some (n', g)"
          by (simp add: add.commute)
        then show ?thesis by blast
      qed
    qed
  qed
qed

lemma prefix_drop_sublist: "prefix x (drop k s) \<Longrightarrow> sublist x s"
proof -
  assume "prefix x (drop k s)"
  then obtain r where "drop k s = x @ r" by (auto simp: prefix_def)
  then have "s = take k s @ x @ r" by (metis append_take_drop_id)
  then show ?thesis by (metis sublist_appendI)
qed

lemma found_input_occurs:
  "a \<in> set (re_findall (m_directive ''input'') s) \<Longrightarrow> sublist (input_directive a) s"
proof -
  assume "a \<in> set (re_findall (m_directive ''input'') s)"
  then obtain k n where "m_directive ''input'' (drop k s) = Some (n, a)"
    using re_findall_matched by blast
  then have "prefix (bsl # ''input'' @ ''{'' @ a @ ''}'') (drop k s)"
    by (rule m_directive_Some)
  then have "prefix (input_directive a) (drop k s)" by (simp add: input_directive_def)
  then show ?thesis by (rule prefix_drop_sublist)
qed






section \<open>Normalizing twice\<close>

lemma re_sub_induct [case_names Nil None Some]:
  assumes "P []"
    and "\<And>c cs. m (c # cs) = None \<Longrightarrow> P cs \<Longrightarrow> P (c # cs)"
    and "\<And>c cs n. m (c # cs) = Some n \<Longrightarrow> (\<And>k. P (drop k cs)) \<Longrightarrow> P (c # cs)"
  shows "P s"
proof (induction s rule: length_induct)
  case (1 s)
  show ?case
  proof (cases s)
    case Nil
    with assms(1) show ?thesis by simp
  next
    case (Cons c cs)
    show ?thesis
    proof (cases "m (c # cs)")
      case None
      from Cons 1 have "P cs" by simp
      with None Cons assms(2) show ?thesis by simp
    next
      case (Some n)
      from Cons 1 have "\<And>k. P (drop k cs)" by simp
      with Some Cons assms(3) show ?thesis by blast
    qed
  qed
qed

lemma re_sub_id:
  "(\<And>k. m (drop k s) = None) \<Longrightarrow> re_sub m r s = s"
proof (induction s)
  case Nil
  from Nil [of 0] show ?case by simp
next
  case (Cons c cs)
  from Cons.prems [of 0] have 0: "m (c # cs) = None" by simp
  have "\<And>k. m (drop k cs) = None" using Cons.prems [of "Suc k" for k] by simp
  with Cons.IH 0 show ?case by simp
qed

lemma set_re_sub: "set (re_sub m r s) \<subseteq> set s \<union> set r"
proof (induction s rule: re_sub_induct [where m = m])
  case Nil
  then show ?case by (cases "m []") auto
next
  case (None c cs)
  then show ?case by auto
next
  case (Some c cs n)
  from Some(2) [of 0] have 0: "set (re_sub m r cs) \<subseteq> set cs \<union> set r" by simp
  from Some(2) [of "n - 1"] have "set (re_sub m r (drop (n - 1) cs)) \<subseteq> set (drop (n - 1) cs) \<union> set r" .
  moreover have "set (drop (n - 1) cs) \<subseteq> set cs" by (rule set_drop_subset)
  ultimately have 1: "set (re_sub m r (drop (n - 1) cs)) \<subseteq> set cs \<union> set r" by blast
  from Some(1) 0 1 show ?case by auto
qed


subsection \<open>Line comments\<close>

lemma comment_free_drop: "comment_free s \<Longrightarrow> comment_free (drop k s)"
proof (induction s arbitrary: k)
  case Nil
  then show ?case by simp
next
  case (Cons c cs)
  then show ?case by (cases k) simp_all
qed

lemma m_line_comment_Some:
  "m_line_comment u = Some n \<Longrightarrow> 0 < n"
  by (cases u) (auto simp: m_line_comment_def Let_def split: if_splits)

lemma m_line_comment_percent_None:
  assumes "m_line_comment (CHR ''%'' # cs) = None"
  shows "lf \<notin> set cs"
proof -
  from assms have "length (takeWhile (\<lambda>x. x \<noteq> lf) cs) = length cs"
    using length_takeWhile_le [of "\<lambda>x. x \<noteq> lf" cs]
    by (simp add: m_line_comment_def Let_def split: if_splits)
  then have "takeWhile (\<lambda>x. x \<noteq> lf) cs = cs"
    by (metis takeWhile_dropWhile_id append_eq_conv_conj length_0_conv length_append
          add_diff_cancel_left' append_Nil2 length_drop dropWhile_eq_drop)
  then have "\<forall>x \<in> set cs. x \<noteq> lf" by (simp only: takeWhile_eq_all_conv)
  then show ?thesis by blast
qed

lemma re_sub_line_comment_no_lf:
  "lf \<notin> set r \<Longrightarrow> re_sub m_line_comment [lf] r = r"
proof (rule re_sub_id)
  fix k
  assume "lf \<notin> set r"
  moreover have "set (drop k r) \<subseteq> set r" by (rule set_drop_subset)
  ultimately have "lf \<notin> set (drop k r)" by blast
  then show "m_line_comment (drop k r) = None" by (rule m_line_comment_no_lf)
qed

lemma comment_free_strip: "comment_free (re_sub m_line_comment [lf] s)"
proof (induction s rule: re_sub_induct [where m = m_line_comment])
  case Nil
  then show ?case by (simp add: m_line_comment_def)
next
  case (None c cs)
  show ?case
  proof (cases "c = CHR ''%''")
    case True
    with None(1) have "lf \<notin> set cs" by (simp add: m_line_comment_percent_None)
    then have "re_sub m_line_comment [lf] cs = cs" by (rule re_sub_line_comment_no_lf)
    with \<open>lf \<notin> set cs\<close> None show ?thesis by simp
  next
    case False
    with None show ?thesis by simp
  qed
next
  case (Some c cs n)
  from Some(1) have "0 < n" by (rule m_line_comment_Some)
  with Some(1) Some(2) [of "n - 1"] show ?case by simp
qed

lemma strip_comment_free: "comment_free t \<Longrightarrow> re_sub m_line_comment [lf] t = t"
proof (induction t)
  case Nil
  then show ?case by (simp add: m_line_comment_def)
next
  case (Cons c cs)
  have "m_line_comment (c # cs) = None"
  proof (cases "c = CHR ''%''")
    case True
    with Cons.prems have "lf \<notin> set (c # cs)" by simp
    then show ?thesis by (rule m_line_comment_no_lf)
  next
    case False
    then show ?thesis by (rule m_line_comment_other)
  qed
  with Cons show ?case by simp
qed

subsection \<open>Line feeds\<close>

lemma m_newlines_None: "m_newlines (c # cs) = None \<longleftrightarrow> c \<noteq> lf"
  by (simp add: m_newlines_def Let_def)

lemma m_newlines_Nil: "m_newlines [] = None"
  by (simp add: m_newlines_def)

lemma m_newlines_Some:
  "m_newlines (c # cs) = Some n \<Longrightarrow>
   c = lf \<and> 0 < n \<and> drop (n - 1) cs = dropWhile (\<lambda>x. x = lf) cs"
  by (auto simp: m_newlines_def Let_def dropWhile_eq_drop split: if_splits)

lemma re_sub_newlines_no_lf:
  "lf \<notin> set u \<Longrightarrow> re_sub m_newlines [lf] u = u"
proof (rule re_sub_id)
  fix k
  assume "lf \<notin> set u"
  moreover have "set (drop k u) \<subseteq> set u" by (rule set_drop_subset)
  ultimately have "lf \<notin> set (drop k u)" by blast
  then show "m_newlines (drop k u) = None"
    by (cases "drop k u") (auto simp: m_newlines_Nil m_newlines_None)
qed

lemma comment_free_newlines:
  "comment_free s \<Longrightarrow> comment_free (re_sub m_newlines [lf] s)"
proof (induction s rule: re_sub_induct [where m = m_newlines])
  case Nil
  then show ?case by (simp add: m_newlines_Nil)
next
  case (None c cs)
  show ?case
  proof (cases "c = CHR ''%''")
    case True
    with None(3) have "lf \<notin> set cs" by simp
    then have "re_sub m_newlines [lf] cs = cs" by (rule re_sub_newlines_no_lf)
    with None show ?thesis by simp
  next
    case False
    with None show ?thesis by simp
  qed
next
  case (Some c cs n)
  from Some(1) have n: "c = lf" "0 < n" by (auto dest: m_newlines_Some)
  from Some(3) have "comment_free (drop (n - 1) cs)" by (simp add: comment_free_drop)
  with Some(2) [of "n - 1"] have "comment_free (re_sub m_newlines [lf] (drop (n - 1) cs))" by simp
  with Some(1) n show ?case by simp
qed

lemma not_lf_first_newlines:
  "\<not> prefix [lf] u \<Longrightarrow> \<not> prefix [lf] (re_sub m_newlines [lf] u)"
proof (cases u)
  case Nil
  then show ?thesis by (simp add: m_newlines_Nil)
next
  case (Cons d u')
  assume "\<not> prefix [lf] u"
  with Cons have "d \<noteq> lf" by simp
  then have "m_newlines (d # u') = None" by (simp add: m_newlines_None)
  with Cons \<open>d \<noteq> lf\<close> show ?thesis by simp
qed

lemma single_lf_newlines: "single_lf (re_sub m_newlines [lf] s)"
proof (induction s rule: re_sub_induct [where m = m_newlines])
  case Nil
  then show ?case by (simp add: m_newlines_Nil)
next
  case (None c cs)
  from None(1) have "c \<noteq> lf" by (simp add: m_newlines_None)
  with None show ?case by simp
next
  case (Some c cs n)
  from Some(1) have n: "c = lf" "0 < n" "drop (n - 1) cs = dropWhile (\<lambda>x. x = lf) cs"
    by (auto dest: m_newlines_Some)
  have "\<not> prefix [lf] (dropWhile (\<lambda>x. x = lf) cs)"
    by (metis (mono_tags, lifting) append_Cons append_Nil hd_dropWhile list.sel(1) list.simps(3) prefixE)
  with n have "\<not> prefix [lf] (re_sub m_newlines [lf] (drop (n - 1) cs))"
    by (simp add: not_lf_first_newlines)
  with Some(1) Some(2) [of "n - 1"] n show ?case by simp
qed

lemma newlines_single_lf: "single_lf t \<Longrightarrow> re_sub m_newlines [lf] t = t"
proof (induction t)
  case Nil
  then show ?case by (simp add: m_newlines_Nil)
next
  case (Cons c cs)
  show ?case
  proof (cases "c = lf")
    case True
    with Cons.prems have "\<not> prefix [lf] cs" by simp
    then have "takeWhile (\<lambda>x. x = lf) cs = []" by (cases cs) auto
    with True have "m_newlines (c # cs) = Some 1" by (simp add: m_newlines_def)
    with Cons True show ?thesis by simp
  next
    case False
    then have "m_newlines (c # cs) = None" by (simp add: m_newlines_None)
    with Cons show ?thesis by simp
  qed
qed


subsection \<open>Spaces\<close>

lemma single_lf_drop: "single_lf s \<Longrightarrow> single_lf (drop k s)"
proof (induction s arbitrary: k)
  case Nil
  then show ?case by simp
next
  case (Cons c cs)
  then show ?case by (cases k) simp_all
qed

lemma m_spaces_Nil: "m_spaces [] = None"
  by (simp add: m_spaces_def)

lemma m_spaces_None:
  "m_spaces u = None \<longleftrightarrow> length (takeWhile hspace u) < 3"
  by (simp add: m_spaces_def Let_def)

lemma m_spaces_Some:
  "m_spaces (c # cs) = Some n \<Longrightarrow>
   hspace c \<and> 0 < n \<and> drop (n - 1) cs = dropWhile hspace cs"
  by (auto simp: m_spaces_def Let_def dropWhile_eq_drop split: if_splits)

lemma comment_free_spaces:
  "comment_free s \<Longrightarrow> comment_free (re_sub m_spaces '' '' s)"
proof (induction s rule: re_sub_induct [where m = m_spaces])
  case Nil
  then show ?case by (simp add: m_spaces_Nil)
next
  case (None c cs)
  have "set (re_sub m_spaces '' '' cs) \<subseteq> set cs \<union> set '' ''" by (rule set_re_sub)
  then have "lf \<notin> set cs \<Longrightarrow> lf \<notin> set (re_sub m_spaces '' '' cs)" by auto
  with None show ?case by auto
next
  case (Some c cs n)
  from Some(1) have n: "0 < n" by (auto dest: m_spaces_Some)
  from Some(3) have "comment_free (drop (n - 1) cs)" by (simp add: comment_free_drop)
  with Some(2) [of "n - 1"] have "comment_free (re_sub m_spaces '' '' (drop (n - 1) cs))" by simp
  with Some(1) n show ?case by simp
qed

lemma lf_first_spaces:
  "prefix [lf] (re_sub m_spaces '' '' u) \<Longrightarrow> prefix [lf] u"
proof (cases u)
  case Nil
  assume "prefix [lf] (re_sub m_spaces '' '' u)"
  with Nil show ?thesis by (simp add: m_spaces_Nil)
next
  case (Cons d u')
  assume a: "prefix [lf] (re_sub m_spaces '' '' u)"
  show ?thesis
  proof (cases "m_spaces (d # u')")
    case None
    with a Cons show ?thesis by simp
  next
    case (Some n)
    then have "0 < n" by (auto dest: m_spaces_Some)
    with a Cons Some show ?thesis by simp
  qed
qed

lemma single_lf_spaces:
  "single_lf s \<Longrightarrow> single_lf (re_sub m_spaces '' '' s)"
proof (induction s rule: re_sub_induct [where m = m_spaces])
  case Nil
  then show ?case by (simp add: m_spaces_Nil)
next
  case (None c cs)
  then show ?case by (auto dest: lf_first_spaces)
next
  case (Some c cs n)
  from Some(1) have n: "0 < n" by (auto dest: m_spaces_Some)
  from Some(3) have "single_lf (drop (n - 1) cs)" by (simp add: single_lf_drop)
  with Some(2) [of "n - 1"] have "single_lf (re_sub m_spaces '' '' (drop (n - 1) cs))" by simp
  with Some(1) n show ?case by simp
qed

lemma run_spaces_short:
  "length (takeWhile hspace u) < 3 \<Longrightarrow>
   takeWhile hspace (re_sub m_spaces '' '' u) = takeWhile hspace u"
proof (induction u)
  case Nil
  then show ?case by (simp add: m_spaces_Nil)
next
  case (Cons c cs)
  then have m: "m_spaces (c # cs) = None" by (simp add: m_spaces_None)
  show ?case
  proof (cases "hspace c")
    case True
    with Cons.prems have "length (takeWhile hspace cs) < 3" by simp
    with Cons.IH m True show ?thesis by simp
  next
    case False
    with m show ?thesis by simp
  qed
qed

lemma short_runs_spaces: "short_runs (re_sub m_spaces '' '' s)"
proof (induction s rule: re_sub_induct [where m = m_spaces])
  case Nil
  then show ?case by (simp add: m_spaces_Nil)
next
  case (None c cs)
  from None(1) have r: "length (takeWhile hspace (c # cs)) < 3" by (simp add: m_spaces_None)
  have "length (takeWhile hspace (c # re_sub m_spaces '' '' cs)) < 3"
  proof (cases "hspace c")
    case True
    with r have "length (takeWhile hspace cs) < 3" by simp
    then have "takeWhile hspace (re_sub m_spaces '' '' cs) = takeWhile hspace cs"
      by (rule run_spaces_short)
    with r True show ?thesis by simp
  next
    case False
    then show ?thesis by simp
  qed
  with None show ?case by simp
next
  case (Some c cs n)
  from Some(1) have n: "0 < n" "drop (n - 1) cs = dropWhile hspace cs"
    by (auto dest: m_spaces_Some)
  have "takeWhile hspace (dropWhile hspace cs) = []"
    by (metis (full_types) hd_dropWhile takeWhile.simps(1) takeWhile.simps(2) list.collapse)
  then have "length (takeWhile hspace (dropWhile hspace cs)) < 3" by simp
  then have "takeWhile hspace (re_sub m_spaces '' '' (dropWhile hspace cs))
               = takeWhile hspace (dropWhile hspace cs)"
    by (rule run_spaces_short)
  with \<open>takeWhile hspace (dropWhile hspace cs) = []\<close>
  have "length (takeWhile hspace (CHR '' '' # re_sub m_spaces '' '' (dropWhile hspace cs))) < 3"
    by simp
  with Some(1) Some(2) [of "n - 1"] n show ?case by simp
qed

lemma spaces_short_runs: "short_runs t \<Longrightarrow> re_sub m_spaces '' '' t = t"
proof (induction t)
  case Nil
  then show ?case by (simp add: m_spaces_Nil)
next
  case (Cons c cs)
  then have "m_spaces (c # cs) = None" by (simp add: m_spaces_None)
  with Cons show ?case by simp
qed

subsection \<open>What a replacement cannot create\<close>

lemma sublist_drop: "sublist x (drop k s) \<Longrightarrow> sublist x s"
  by (metis append_take_drop_id sublist_append)

lemma prefix_re_sub_back:
  "c \<notin> set x \<Longrightarrow> prefix x (re_sub m [c] s) \<Longrightarrow> prefix x s"
proof (induction s arbitrary: x)
  case Nil
  then show ?case by (cases "m []") (auto simp: prefix_Cons)
next
  case (Cons a s)
  show ?case
  proof (cases "m (a # s)")
    case None
    with Cons.prems(2) have p: "prefix x (a # re_sub m [c] s)" by simp
    show ?thesis
    proof (cases x)
      case Nil
      then show ?thesis by simp
    next
      case (Cons y ys)
      with p have "y = a" "prefix ys (re_sub m [c] s)" by simp_all
      moreover from Cons Cons.prems(1) have "c \<notin> set ys" by simp
      ultimately show ?thesis using Cons.IH Cons by simp
    qed
  next
    case (Some n)
    with Cons.prems(2) obtain rest where "prefix x (c # rest)" by (auto split: if_splits)
    with Cons.prems(1) have "x = []" by (cases x) auto
    then show ?thesis by simp
  qed
qed

lemma sublist_re_sub_back:
  "c \<notin> set x \<Longrightarrow> sublist x (re_sub m [c] s) \<Longrightarrow> sublist x s"
proof (induction s rule: re_sub_induct [where m = m])
  case Nil
  then show ?case by (cases "m []") (auto simp: sublist_Cons_right prefix_Cons)
next
  case (None a cs)
  from None(1,4) have "sublist x (a # re_sub m [c] cs)" by simp
  then have "prefix x (a # re_sub m [c] cs) \<or> sublist x (re_sub m [c] cs)"
    by (simp add: sublist_Cons_right)
  then show ?case
  proof
    assume "prefix x (a # re_sub m [c] cs)"
    with None(1) have "prefix x (re_sub m [c] (a # cs))" by simp
    with None(3) have "prefix x (a # cs)" by (rule prefix_re_sub_back)
    then show ?thesis by (rule prefix_imp_sublist)
  next
    assume "sublist x (re_sub m [c] cs)"
    with None have "sublist x cs" by simp
    then show ?thesis by (simp add: sublist_Cons_right)
  qed
next
  case (Some a cs n)
  show ?case
  proof (cases "prefix x (re_sub m [c] (a # cs))")
    case True
    with Some(3) have "prefix x (a # cs)" by (rule prefix_re_sub_back)
    then show ?thesis by (rule prefix_imp_sublist)
  next
    case False
    show ?thesis
    proof (cases "n = 0")
      case True
      with Some(1) have e: "re_sub m [c] (a # cs) = c # a # re_sub m [c] cs" by simp
      with Some(4) False have "sublist x (a # re_sub m [c] cs)" by (simp add: sublist_Cons_right)
      then have "prefix x (a # re_sub m [c] cs) \<or> sublist x (re_sub m [c] cs)"
        by (simp add: sublist_Cons_right)
      then show ?thesis
      proof
        assume p: "prefix x (a # re_sub m [c] cs)"
        show ?thesis
        proof (cases x)
          case Nil
          then show ?thesis by simp
        next
          case (Cons y ys)
          with p have "y = a" "prefix ys (re_sub m [c] cs)" by simp_all
          moreover from Cons Some(3) have "c \<notin> set ys" by simp
          ultimately have "prefix ys cs" using prefix_re_sub_back by blast
          with Cons \<open>y = a\<close> have "prefix x (a # cs)" by simp
          then show ?thesis by (rule prefix_imp_sublist)
        qed
      next
        assume "sublist x (re_sub m [c] cs)"
        with Some(2) [of 0] Some(3) have "sublist x cs" by simp
        then show ?thesis by (simp add: sublist_Cons_right)
      qed
    next
      case n: False
      with Some(1) have e: "re_sub m [c] (a # cs) = c # re_sub m [c] (drop (n - 1) cs)" by simp
      with Some(4) False have "sublist x (re_sub m [c] (drop (n - 1) cs))"
        by (simp add: sublist_Cons_right)
      with Some(2) [of "n - 1"] Some(3) have "sublist x (drop (n - 1) cs)" by simp
      then have "sublist x cs" by (rule sublist_drop)
      then show ?thesis by (simp add: sublist_Cons_right)
    qed
  qed
qed

lemma comment_free_delete: "comment_free s \<Longrightarrow> comment_free (re_sub m [] s)"
proof (induction s rule: re_sub_induct [where m = m])
  case Nil
  then show ?case by (cases "m []") auto
next
  case (None a cs)
  have "set (re_sub m [] cs) \<subseteq> set cs \<union> set []" by (rule set_re_sub)
  then have "lf \<notin> set cs \<Longrightarrow> lf \<notin> set (re_sub m [] cs)" by auto
  with None show ?case by auto
next
  case (Some a cs n)
  have "set (re_sub m [] cs) \<subseteq> set cs \<union> set []" by (rule set_re_sub)
  then have 0: "lf \<notin> set cs \<Longrightarrow> lf \<notin> set (re_sub m [] cs)" by auto
  from Some(3) have c: "comment_free cs" by simp
  with Some(2) [of 0] have 1: "comment_free (re_sub m [] cs)" by simp
  from c have "comment_free (drop (n - 1) cs)" by (rule comment_free_drop)
  with Some(2) [of "n - 1"] have 2: "comment_free (re_sub m [] (drop (n - 1) cs))" by simp
  from Some(1,3) 0 1 2 show ?case by auto
qed

lemma re_sub_block_absent:
  assumes "\<not> sublist opn s"
  shows "re_sub (m_block opn cls) r s = s"
proof (rule re_sub_id)
  fix k
  from assms have "\<not> prefix opn (drop k s)" using prefix_drop_sublist by blast
  then show "m_block opn cls (drop k s) = None" by (simp add: m_block_def)
qed

lemma re_sub_lit_absent:
  assumes "\<not> sublist p s"
  shows "re_sub (m_lit p) r s = s"
proof (rule re_sub_id)
  fix k
  from assms have "\<not> prefix p (drop k s)" using prefix_drop_sublist by blast
  then show "m_lit p (drop k s) = None" by (simp add: m_lit_def)
qed

lemma not_bsl_first_linebreaks:
  "\<not> prefix [bsl] u \<Longrightarrow> \<not> prefix [bsl] (re_sub (m_lit [bsl, bsl]) [] u)"
proof (cases u)
  case Nil
  then show ?thesis by (simp add: m_lit_def)
next
  case (Cons d u')
  assume "\<not> prefix [bsl] u"
  with Cons have "d \<noteq> bsl" by simp
  then have "m_lit [bsl, bsl] (d # u') = None" by (simp add: m_lit_def)
  with Cons \<open>d \<noteq> bsl\<close> show ?thesis by simp
qed

lemma linebreaks_gone: "\<not> sublist [bsl, bsl] (re_sub (m_lit [bsl, bsl]) [] s)"
proof (induction s rule: re_sub_induct [where m = "m_lit [bsl, bsl]"])
  case Nil
  then show ?case by (simp add: m_lit_def)
next
  case (None a cs)
  from None(1) have n: "\<not> (a = bsl \<and> prefix [bsl] cs)"
    by (auto simp: m_lit_def split: if_splits)
  have "\<not> prefix [bsl, bsl] (a # re_sub (m_lit [bsl, bsl]) [] cs)"
  proof
    assume "prefix [bsl, bsl] (a # re_sub (m_lit [bsl, bsl]) [] cs)"
    then have "a = bsl \<and> prefix [bsl] (re_sub (m_lit [bsl, bsl]) [] cs)" by auto
    with n not_bsl_first_linebreaks [of cs] show False by blast
  qed
  with None show ?case by (simp add: sublist_Cons_right)
next
  case (Some a cs n)
  from Some(1) have "n = 2" by (simp add: m_lit_def split: if_splits)
  with Some(1) Some(2) [of 1] show ?case by simp
qed

subsection \<open>The whole normalizer\<close>

lemma normalize_content_properties:
  "comment_free (normalize_content s)"
  "\<not> sublist [bsl, bsl] (normalize_content s)"
  "short_runs (normalize_content s)"
proof -
  show "comment_free (normalize_content s)"
    unfolding normalize_content_def collapse_spaces_def strip_linebreaks_def
      collapse_newlines_def strip_iffalse_blocks_def strip_comment_blocks_def
      strip_line_comments_def
    by (intro comment_free_spaces comment_free_delete comment_free_newlines comment_free_strip)
  show "\<not> sublist [bsl, bsl] (normalize_content s)"
    unfolding normalize_content_def collapse_spaces_def strip_linebreaks_def
    using sublist_re_sub_back [of "CHR '' ''" "[bsl, bsl]" m_spaces] linebreaks_gone
    by auto
  show "short_runs (normalize_content s)"
    unfolding normalize_content_def collapse_spaces_def by (rule short_runs_spaces)
qed

lemma normalize_content_fixed:
  assumes "strip_comment_blocks (normalize_content s) = normalize_content s"
    and "strip_iffalse_blocks (normalize_content s) = normalize_content s"
    and "collapse_newlines (normalize_content s) = normalize_content s"
  shows "normalize_content (normalize_content s) = normalize_content s"
proof -
  let ?t = "normalize_content s"
  have 1: "strip_line_comments ?t = ?t"
    unfolding strip_line_comments_def
    by (rule strip_comment_free) (rule normalize_content_properties)
  have 5: "strip_linebreaks ?t = ?t"
    unfolding strip_linebreaks_def
    by (rule re_sub_lit_absent) (rule normalize_content_properties)
  have 6: "collapse_spaces ?t = ?t"
    unfolding collapse_spaces_def
    by (rule spaces_short_runs) (rule normalize_content_properties)
  have "normalize_content ?t
          = collapse_spaces (strip_linebreaks (collapse_newlines
              (strip_iffalse_blocks (strip_comment_blocks (strip_line_comments ?t)))))"
    by (rule normalize_content_def)
  also have "\<dots> = ?t" by (simp only: 1 assms 5 6)
  finally show ?thesis .
qed

lemma three_steps_back:
  assumes "lf \<notin> set x" and "CHR '' '' \<notin> set x"
    and "sublist x (re_sub m_spaces '' '' (re_sub m_newlines [lf] (re_sub m_line_comment [lf] s)))"
  shows "sublist x s"
proof -
  from assms(2,3) have "sublist x (re_sub m_newlines [lf] (re_sub m_line_comment [lf] s))"
    by (rule sublist_re_sub_back)
  with assms(1) have "sublist x (re_sub m_line_comment [lf] s)" by (rule sublist_re_sub_back)
  with assms(1) show ?thesis by (rule sublist_re_sub_back)
qed

lemma normalize_content_plain:
  assumes l: "\<not> sublist [bsl, bsl] s"
    and c: "\<not> sublist (bsl # ''begin{comment}'') s"
    and i: "\<not> sublist (bsl # ''iffalse'') s"
  shows "normalize_content s
           = re_sub m_spaces '' '' (re_sub m_newlines [lf] (re_sub m_line_comment [lf] s))"
    and "\<not> sublist (bsl # ''begin{comment}'') (normalize_content s)"
    and "\<not> sublist (bsl # ''iffalse'') (normalize_content s)"
proof -
  let ?a = "re_sub m_line_comment [lf] s"
  let ?b = "re_sub m_newlines [lf] ?a"
  let ?c = "re_sub m_spaces '' '' ?b"
  have a: "\<not> sublist (bsl # ''begin{comment}'') ?a" "\<not> sublist (bsl # ''iffalse'') ?a"
    using c i sublist_re_sub_back [of lf _ m_line_comment s] by auto
  have b: "\<not> sublist [bsl, bsl] ?b"
    using l sublist_re_sub_back [of lf "[bsl, bsl]" m_line_comment s]
      sublist_re_sub_back [of lf "[bsl, bsl]" m_newlines ?a]
    by auto
  have 2: "strip_comment_blocks ?a = ?a"
    unfolding strip_comment_blocks_def by (rule re_sub_block_absent) (rule a)
  have 3: "strip_iffalse_blocks ?a = ?a"
    unfolding strip_iffalse_blocks_def by (rule re_sub_block_absent) (rule a)
  have 5: "strip_linebreaks ?b = ?b"
    unfolding strip_linebreaks_def by (rule re_sub_lit_absent) (rule b)
  show e: "normalize_content s = ?c"
    by (simp add: normalize_content_def strip_line_comments_def collapse_newlines_def
          collapse_spaces_def 2 3 5)
  show "\<not> sublist (bsl # ''begin{comment}'') (normalize_content s)"
    unfolding e using c three_steps_back [of "bsl # ''begin{comment}''" s] by auto
  show "\<not> sublist (bsl # ''iffalse'') (normalize_content s)"
    unfolding e using i three_steps_back [of "bsl # ''iffalse''" s] by auto
qed

text \<open>
  C6, as the code has it. The line-comment step, the step that removes the line-break
  markers and the whitespace step never change a text that the normalizer has produced.
  So normalizing twice gives what normalizing once gives whenever the two steps that
  strip disabled blocks and the step that collapses blank lines leave the normalized
  text as it is; and they do for every text that holds no line-break marker, no
  \<open>\begin{comment}\<close> and no \<open>\iffalse\<close>.
\<close>

theorem normalize_content_idempotent:
  "(strip_comment_blocks (normalize_content s) = normalize_content s
      \<and> strip_iffalse_blocks (normalize_content s) = normalize_content s
      \<and> collapse_newlines (normalize_content s) = normalize_content s
    \<longrightarrow> normalize_content (normalize_content s) = normalize_content s)
   \<and> (\<not> sublist [bsl, bsl] s \<and> \<not> sublist (bsl # ''begin{comment}'') s
      \<and> \<not> sublist (bsl # ''iffalse'') s
    \<longrightarrow> normalize_content (normalize_content s) = normalize_content s)
   \<and> strip_line_comments (normalize_content s) = normalize_content s
   \<and> strip_linebreaks (normalize_content s) = normalize_content s
   \<and> collapse_spaces (normalize_content s) = normalize_content s"
proof (intro conjI impI)
  assume "strip_comment_blocks (normalize_content s) = normalize_content s
      \<and> strip_iffalse_blocks (normalize_content s) = normalize_content s
      \<and> collapse_newlines (normalize_content s) = normalize_content s"
  then show "normalize_content (normalize_content s) = normalize_content s"
    by (intro normalize_content_fixed) simp_all
next
  assume p: "\<not> sublist [bsl, bsl] s \<and> \<not> sublist (bsl # ''begin{comment}'') s
      \<and> \<not> sublist (bsl # ''iffalse'') s"
  let ?t = "normalize_content s"
  from p have p1: "\<not> sublist [bsl, bsl] s" and p2: "\<not> sublist (bsl # ''begin{comment}'') s"
    and p3: "\<not> sublist (bsl # ''iffalse'') s"
    by simp_all
  note t = normalize_content_plain(1) [OF p1 p2 p3]
  note c = normalize_content_plain(2) [OF p1 p2 p3]
  note i = normalize_content_plain(3) [OF p1 p2 p3]
  have "single_lf ?t" unfolding t by (intro single_lf_spaces single_lf_newlines)
  then have 4: "collapse_newlines ?t = ?t"
    unfolding collapse_newlines_def by (rule newlines_single_lf)
  have 2: "strip_comment_blocks ?t = ?t"
    unfolding strip_comment_blocks_def by (rule re_sub_block_absent) (rule c)
  have 3: "strip_iffalse_blocks ?t = ?t"
    unfolding strip_iffalse_blocks_def by (rule re_sub_block_absent) (rule i)
  show "normalize_content ?t = ?t" by (rule normalize_content_fixed [OF 2 3 4])
next
  show "strip_line_comments (normalize_content s) = normalize_content s"
    unfolding strip_line_comments_def
    by (rule strip_comment_free) (rule normalize_content_properties)
  show "strip_linebreaks (normalize_content s) = normalize_content s"
    unfolding strip_linebreaks_def
    by (rule re_sub_lit_absent) (rule normalize_content_properties)
  show "collapse_spaces (normalize_content s) = normalize_content s"
    unfolding collapse_spaces_def
    by (rule spaces_short_runs) (rule normalize_content_properties)
qed

theorem normalize_content_idempotent_witness:
  "normalize_content (normalize_content
      (bsl # ''section{A}  %  b'' @ [lf, lf, lf] @ bsl # ''textbf{c}     d  % e''))
     = normalize_content (bsl # ''section{A}  %  b'' @ [lf, lf, lf] @ bsl # ''textbf{c}     d  % e'')
   \<and> normalize_content (normalize_content (''a '' @ [bsl, bsl, lf] @ ''b''))
     = normalize_content (''a '' @ [bsl, bsl, lf] @ ''b'')"
proof -
  let ?s = "bsl # ''section{A}  %  b'' @ [lf, lf, lf] @ bsl # ''textbf{c}     d  % e''"
  let ?u = "''a '' @ [bsl, bsl, lf] @ ''b''"
  have "\<not> sublist [bsl, bsl] ?s \<and> \<not> sublist (bsl # ''begin{comment}'') ?s
      \<and> \<not> sublist (bsl # ''iffalse'') ?s"
    by (simp add: sublist_Cons_right)
  with normalize_content_idempotent [of ?s]
  have 1: "normalize_content (normalize_content ?s) = normalize_content ?s" by blast
  have n: "normalize_content ?u = ''a '' @ [lf] @ ''b''" by code_simp
  have "strip_comment_blocks (normalize_content ?u) = normalize_content ?u
      \<and> strip_iffalse_blocks (normalize_content ?u) = normalize_content ?u
      \<and> collapse_newlines (normalize_content ?u) = normalize_content ?u"
    unfolding n by code_simp
  with normalize_content_idempotent [of ?u]
  have 2: "normalize_content (normalize_content ?u) = normalize_content ?u" by blast
  from 1 2 show ?thesis by (intro conjI)
qed

text \<open>
  The claim for every text fails: a line that holds a line-break marker alone becomes an
  empty line in the first run, after the empty lines have been collapsed, and the second
  run collapses it.
\<close>

theorem normalize_content_idempotent_counterexample:
  "normalize_content (normalize_content (''a'' @ [lf, bsl, bsl, lf] @ ''b'')) = ''a'' @ [lf] @ ''b''
   \<and> normalize_content (''a'' @ [lf, bsl, bsl, lf] @ ''b'') = ''a'' @ [lf, lf] @ ''b''"
  by code_simp


end
